theory Spec2Isabelle
  imports Main "HOL-Library.Word"
begin

section \<open>TimedCache: a memory cache with expiration (timedcache.go)\<close>

text \<open>
  The embedding follows \<^verbatim>\<open>timedcache.go\<close> function by function. Every method has a
  pointer receiver and mutates the cache in place, so each one takes the cache and
  returns the cache it leaves behind. The readings of the wall clock
  (\<^verbatim>\<open>time.Now().UTC()\<close>) are parameters: a call reads the clock at most once, and the
  parameter \<open>now\<close> is that reading.
\<close>

subsection \<open>Time\<close>

text \<open>
  A \<^verbatim>\<open>time.Time\<close> is an instant, here the number of nanoseconds since the epoch; a
  \<^verbatim>\<open>time.Duration\<close> is an \<^verbatim>\<open>int64\<close> count of nanoseconds, read as two's complement.
  \<^verbatim>\<open>UTC()\<close> changes the location of a time, not the instant. A reading of the clock
  plus or minus any \<^verbatim>\<open>int64\<close> of nanoseconds (292 years at most) is far inside the range
  of \<^verbatim>\<open>time.Time\<close>, so \<^verbatim>\<open>Add\<close> is the exact sum and \<^verbatim>\<open>Before\<close> the strict order of instants.
\<close>

type_synonym Time = int
type_synonym Duration = "64 word"

definition Add :: "Time \<Rightarrow> Duration \<Rightarrow> Time" where
  "Add t d = t + sint d"

definition Before :: "Time \<Rightarrow> Time \<Rightarrow> bool" where
  "Before t u = (t < u)"

definition Minute :: Duration where
  "Minute = 60000000000"

subsection \<open>Data\<close>

record 'a cacheItem =
  Content :: 'a
  ExpiresAt :: Time
  KeepRefreshing :: bool
  RefreshBy :: Duration

text \<open>
  A Go map value is \<^verbatim>\<open>nil\<close> or an allocated table. Reading, deleting from and ranging
  over a nil map behave as on an empty table; assigning to an entry of a nil map panics.
\<close>

datatype 'v gomap = NilMap | Map "string \<rightharpoonup> 'v"

datatype panic = AssignmentToEntryInNilMap

fun lookup :: "'v gomap \<Rightarrow> string \<Rightarrow> 'v option" where
  "lookup NilMap key = None"
| "lookup (Map m) key = m key"

fun assign :: "'v gomap \<Rightarrow> string \<Rightarrow> 'v \<Rightarrow> panic + 'v gomap" where
  "assign NilMap key v = Inl AssignmentToEntryInNilMap"
| "assign (Map m) key v = Inr (Map (m(key \<mapsto> v)))"

fun delete :: "'v gomap \<Rightarrow> string \<Rightarrow> 'v gomap" where
  "delete NilMap key = NilMap"
| "delete (Map m) key = Map (m(key := None))"

fun keys :: "'v gomap \<Rightarrow> string set" where
  "keys NilMap = {}"
| "keys (Map m) = dom m"

text \<open>
  The struct \<^verbatim>\<open>TimedCache\<close>, as one goroutine sees it through one variable: the table
  and the interval. Every method brackets its work with \<^verbatim>\<open>tc.mu.Lock()\<close> and
  \<^verbatim>\<open>tc.mu.Unlock()\<close>, on every path, so the mutex \<^verbatim>\<open>mu\<close> is free between the calls of a
  sequential client and carries no state here. Which mutex a call takes, and which
  table it works on, is modelled below with the variables in memory.
\<close>

record 'a TimedCache =
  items :: "'a cacheItem gomap"
  interval :: Duration

datatype error = ItemNotFound

type_synonym ('r, 'a) outcome = "panic + ('r \<times> 'a TimedCache)"

subsection \<open>Constructors\<close>

text \<open>
  The cache value that \<^verbatim>\<open>New\<close> and \<^verbatim>\<open>NewWithCustomInterval\<close> return, and no more than
  that: the goroutine that each of them starts with \<^verbatim>\<open>go newCache.startInterval()\<close> is
  not in these two definitions. The constructors with that effect are
  \<open>New_in_memory\<close> and \<open>NewWithCustomInterval_in_memory\<close> below.
\<close>

definition New :: "'a TimedCache" where
  "New = \<lparr>items = Map Map.empty, interval = Minute\<rparr>"

definition NewWithCustomInterval :: "Duration \<Rightarrow> 'a TimedCache" where
  "NewWithCustomInterval interval' = \<lparr>items = Map Map.empty, interval = interval'\<rparr>"

subsection \<open>Methods\<close>

definition Put :: "Time \<Rightarrow> string \<Rightarrow> 'a \<Rightarrow> Duration \<Rightarrow> 'a TimedCache \<Rightarrow> (unit, 'a) outcome" where
  "Put now key content duration tc =
     (case assign (items tc) key
             \<lparr>Content = content, ExpiresAt = Add now duration,
              KeepRefreshing = False, RefreshBy = 0\<rparr> of
        Inl p \<Rightarrow> Inl p
      | Inr m \<Rightarrow> Inr ((), tc\<lparr>items := m\<rparr>))"

definition PutRefreshing :: "Time \<Rightarrow> string \<Rightarrow> 'a \<Rightarrow> Duration \<Rightarrow> 'a TimedCache \<Rightarrow> (unit, 'a) outcome" where
  "PutRefreshing now key content duration tc =
     (case assign (items tc) key
             \<lparr>Content = content, ExpiresAt = Add now duration,
              KeepRefreshing = True, RefreshBy = duration\<rparr> of
        Inl p \<Rightarrow> Inl p
      | Inr m \<Rightarrow> Inr ((), tc\<lparr>items := m\<rparr>))"

definition Delete :: "string \<Rightarrow> 'a TimedCache \<Rightarrow> (unit, 'a) outcome" where
  "Delete key tc = Inr ((), tc\<lparr>items := delete (items tc) key\<rparr>)"

text \<open>
  \<^verbatim>\<open>Get\<close> returns \<^verbatim>\<open>(theItem.Content, nil)\<close>, here \<open>Inr\<close> of the content, or
  \<^verbatim>\<open>(nil, errors.New("Item not found"))\<close>, here \<open>Inl ItemNotFound\<close>.
\<close>

definition Get :: "Time \<Rightarrow> string \<Rightarrow> 'a TimedCache \<Rightarrow> (error + 'a, 'a) outcome" where
  "Get now key tc =
     (case lookup (items tc) key of
        Some theItem \<Rightarrow>
          if KeepRefreshing theItem then
            (let theItem' = theItem\<lparr>ExpiresAt := Add now (RefreshBy theItem)\<rparr> in
             case assign (items tc) key theItem' of
               Inl p \<Rightarrow> Inl p
             | Inr m \<Rightarrow> Inr (Inr (Content theItem'), tc\<lparr>items := m\<rparr>))
          else Inr (Inr (Content theItem), tc)
      | None \<Rightarrow> Inr (Inl ItemNotFound, tc))"

definition KeyExists :: "string \<Rightarrow> 'a TimedCache \<Rightarrow> (bool, 'a) outcome" where
  "KeyExists key tc =
     (case lookup (items tc) key of
        Some _ \<Rightarrow> Inr (True, tc)
      | None \<Rightarrow> Inr (False, tc))"

text \<open>
  The loop of \<^verbatim>\<open>RemoveExpired\<close> ranges over the map while deleting from it. Go leaves
  the order of a range over a map open, so the order is the parameter \<open>ks\<close>; an entry
  deleted before the range reaches it is not produced, which is the \<open>None\<close> branch.
\<close>

fun RemoveExpired_loop :: "Time \<Rightarrow> string list \<Rightarrow> 'a cacheItem gomap \<Rightarrow> 'a cacheItem gomap" where
  "RemoveExpired_loop timeNow [] m = m"
| "RemoveExpired_loop timeNow (key # ks) m =
     (case lookup m key of
        None \<Rightarrow> RemoveExpired_loop timeNow ks m
      | Some curItem \<Rightarrow>
          if Before (ExpiresAt curItem) timeNow
          then RemoveExpired_loop timeNow ks (delete m key)
          else RemoveExpired_loop timeNow ks m)"

definition RemoveExpired :: "Time \<Rightarrow> string list \<Rightarrow> 'a TimedCache \<Rightarrow> (unit, 'a) outcome" where
  "RemoveExpired now ks tc =
     (let timeNow = now in Inr ((), tc\<lparr>items := RemoveExpired_loop timeNow ks (items tc)\<rparr>))"

text \<open>A range over a map visits every key of the map once.\<close>

definition range_order :: "string list \<Rightarrow> 'v gomap \<Rightarrow> bool" where
  "range_order ks m = (distinct ks \<and> set ks = keys m)"

text \<open>
  Every constructor allocates the table with \<^verbatim>\<open>make\<close>, and no method stores \<^verbatim>\<open>nil\<close>
  into \<^verbatim>\<open>items\<close>. The zero value of the struct, which no constructor returns, has a
  nil table.
\<close>

definition allocated :: "'a TimedCache \<Rightarrow> bool" where
  "allocated tc = (items tc \<noteq> NilMap)"

subsection \<open>Sequences of calls\<close>

text \<open>
  A client's use of one cache is a sequence of method calls, each with its arguments
  and with the clock reading (and, for \<^verbatim>\<open>RemoveExpired\<close>, the range order) it meets.
  \<open>run\<close> performs them in order, each one from its lock to its unlock before the next
  starts, and stops at the first panic. A sweep between two calls is a
  \<open>CallRemoveExpired\<close> of the sequence; a sweep at work while another call is at work is
  not a behaviour of \<open>run\<close>, and what the program does there is not read off it.
\<close>

datatype 'a call =
    CallPut Time string 'a Duration
  | CallPutRefreshing Time string 'a Duration
  | CallDelete string
  | CallGet Time string
  | CallKeyExists string
  | CallRemoveExpired Time "string list"

datatype 'a reply = NoValue | GetReply "error + 'a" | KeyExistsReply bool

definition replying :: "('r \<Rightarrow> 'a reply) \<Rightarrow> ('r, 'a) outcome \<Rightarrow> ('a reply, 'a) outcome" where
  "replying f out = (case out of Inl p \<Rightarrow> Inl p | Inr (r, tc) \<Rightarrow> Inr (f r, tc))"

fun exec :: "'a call \<Rightarrow> 'a TimedCache \<Rightarrow> ('a reply, 'a) outcome" where
  "exec (CallPut now key content duration) tc =
     replying (\<lambda>_. NoValue) (Put now key content duration tc)"
| "exec (CallPutRefreshing now key content duration) tc =
     replying (\<lambda>_. NoValue) (PutRefreshing now key content duration tc)"
| "exec (CallDelete key) tc = replying (\<lambda>_. NoValue) (Delete key tc)"
| "exec (CallGet now key) tc = replying GetReply (Get now key tc)"
| "exec (CallKeyExists key) tc = replying KeyExistsReply (KeyExists key tc)"
| "exec (CallRemoveExpired now ks) tc = replying (\<lambda>_. NoValue) (RemoveExpired now ks tc)"

fun run :: "'a call list \<Rightarrow> 'a TimedCache \<Rightarrow> panic + ('a reply list \<times> 'a TimedCache)" where
  "run [] tc = Inr ([], tc)"
| "run (c # cs) tc =
     (case exec c tc of
        Inl p \<Rightarrow> Inl p
      | Inr (r, tc') \<Rightarrow>
          (case run cs tc' of
             Inl p \<Rightarrow> Inl p
           | Inr (rs, tc'') \<Rightarrow> Inr (r # rs, tc'')))"

text \<open>The calls that insert nothing: every method but the two puts.\<close>

fun inserts_nothing :: "'a call \<Rightarrow> bool" where
  "inserts_nothing (CallPut now key content duration) = False"
| "inserts_nothing (CallPutRefreshing now key content duration) = False"
| "inserts_nothing (CallDelete key) = True"
| "inserts_nothing (CallGet now key) = True"
| "inserts_nothing (CallKeyExists key) = True"
| "inserts_nothing (CallRemoveExpired now ks) = True"

text \<open>
  An entry after a call, against the entry at the same key before it: either the key
  holds nothing now, or it held an entry before with the same \<^verbatim>\<open>Content\<close>,
  \<^verbatim>\<open>KeepRefreshing\<close> and \<^verbatim>\<open>RefreshBy\<close> (\<^verbatim>\<open>ExpiresAt\<close> is free to differ).
\<close>

definition entry_kept :: "'a cacheItem option \<Rightarrow> 'a cacheItem option \<Rightarrow> bool" where
  "entry_kept before after =
     (case after of
        None \<Rightarrow> True
      | Some it' \<Rightarrow>
          (case before of
             None \<Rightarrow> False
           | Some it \<Rightarrow>
               Content it' = Content it \<and> KeepRefreshing it' = KeepRefreshing it
               \<and> RefreshBy it' = RefreshBy it))"

subsection \<open>The mutex, the receivers and the goroutine of the constructors\<close>

text \<open>
  In memory a \<^verbatim>\<open>TimedCache\<close> variable holds a reference to its table (a Go map is a
  reference), the interval and, by value, its own \<^verbatim>\<open>sync.Mutex\<close>. Returning or assigning a
  \<^verbatim>\<open>TimedCache\<close> copies these three fields: the copy refers to the same table and has a
  mutex of its own. Every method has a pointer receiver \<^verbatim>\<open>tc\<close>, starts with
  \<^verbatim>\<open>tc.mu.Lock()\<close> and ends with \<^verbatim>\<open>tc.mu.Unlock()\<close>: the mutex it takes is the one
  in the variable that \<^verbatim>\<open>tc\<close> points to.
\<close>

type_synonym addr = nat

record TimedCache_var =
  items_ref :: "addr option"
  interval_var :: Duration
  mu :: bool

record 'a memory =
  vars :: "addr \<rightharpoonup> TimedCache_var"
  tables :: "addr \<rightharpoonup> (string \<rightharpoonup> 'a cacheItem)"
  sweepers :: "addr list"
  next_free :: addr

definition empty_memory :: "'a memory" where
  "empty_memory = \<lparr>vars = Map.empty, tables = Map.empty, sweepers = [], next_free = 0\<rparr>"

text \<open>
  The constructors with their effects. \<^verbatim>\<open>make\<close> allocates the table; the local variable
  \<^verbatim>\<open>newCache\<close> is allocated too, since \<^verbatim>\<open>go newCache.startInterval()\<close> takes its address
  for the pointer receiver: that address is the receiver of every \<^verbatim>\<open>tc.RemoveExpired()\<close>
  of the loop in \<^verbatim>\<open>startInterval\<close>, recorded in \<open>sweepers\<close>. The result type is
  \<^verbatim>\<open>TimedCache\<close>, not a pointer: \<^verbatim>\<open>return newCache\<close> returns the value of the struct.
\<close>

definition NewWithCustomInterval_in_memory :: "Duration \<Rightarrow> 'a memory \<Rightarrow> TimedCache_var \<times> 'a memory" where
  "NewWithCustomInterval_in_memory interval' s =
     (let table = next_free s;
          newCache_addr = next_free s + 1;
          newCache = \<lparr>items_ref = Some table, interval_var = interval', mu = False\<rparr>
      in (newCache,
          s\<lparr>vars := (vars s)(newCache_addr \<mapsto> newCache),
            tables := (tables s)(table \<mapsto> Map.empty),
            sweepers := newCache_addr # sweepers s,
            next_free := next_free s + 2\<rparr>))"

definition New_in_memory :: "'a memory \<Rightarrow> TimedCache_var \<times> 'a memory" where
  "New_in_memory s =
     (let table = next_free s;
          newCache_addr = next_free s + 1;
          newCache = \<lparr>items_ref = Some table, interval_var = Minute, mu = False\<rparr>
      in (newCache,
          s\<lparr>vars := (vars s)(newCache_addr \<mapsto> newCache),
            tables := (tables s)(table \<mapsto> Map.empty),
            sweepers := newCache_addr # sweepers s,
            next_free := next_free s + 2\<rparr>))"

text \<open>
  The caller keeps the returned value in a variable of its own, as in the README's
  \<^verbatim>\<open>sessionStore = timedcache.New()\<close>; the methods it calls have that variable's address
  as receiver.
\<close>

definition keep_in_variable :: "TimedCache_var \<Rightarrow> 'a memory \<Rightarrow> addr \<times> 'a memory" where
  "keep_in_variable v s =
     (next_free s, s\<lparr>vars := (vars s)(next_free s \<mapsto> v), next_free := next_free s + 1\<rparr>)"

text \<open>
  \<^verbatim>\<open>tc.mu.Lock()\<close> and \<^verbatim>\<open>tc.mu.Unlock()\<close>. \<open>Lock\<close> is \<open>None\<close> where the mutex is held:
  the caller waits there and makes no step. \<open>Unlock\<close> is \<open>None\<close> where the mutex is
  not held, which the runtime treats as a fatal error.
\<close>

definition Lock :: "addr \<Rightarrow> 'a memory \<Rightarrow> 'a memory option" where
  "Lock tc s =
     (case vars s tc of
        None \<Rightarrow> None
      | Some v \<Rightarrow> if mu v then None else Some (s\<lparr>vars := (vars s)(tc \<mapsto> v\<lparr>mu := True\<rparr>)\<rparr>))"

definition Unlock :: "addr \<Rightarrow> 'a memory \<Rightarrow> 'a memory option" where
  "Unlock tc s =
     (case vars s tc of
        None \<Rightarrow> None
      | Some v \<Rightarrow> if mu v then Some (s\<lparr>vars := (vars s)(tc \<mapsto> v\<lparr>mu := False\<rparr>)\<rparr>) else None)"

text \<open>The table a method with receiver \<open>tc\<close> works on between its lock and its unlock.\<close>

definition table_of :: "addr \<Rightarrow> 'a memory \<Rightarrow> addr option" where
  "table_of tc s = (case vars s tc of None \<Rightarrow> None | Some v \<Rightarrow> items_ref v)"

text \<open>The memory of a program after \<^verbatim>\<open>sessionStore = timedcache.New()\<close>, and the address of \<^verbatim>\<open>sessionStore\<close>.\<close>

definition after_New :: "addr \<times> nat memory" where
  "after_New = (case New_in_memory empty_memory of (v, s) \<Rightarrow> keep_in_variable v s)"



subsection \<open>Example data\<close>

text \<open>
  A cache with a refreshing entry and a fixed one, used where a property is tried on a
  concrete input.
\<close>

abbreviation session_item :: "nat cacheItem" where
  "session_item \<equiv> \<lparr>Content = 7, ExpiresAt = 100, KeepRefreshing = True, RefreshBy = 50\<rparr>"

abbreviation fixed_item :: "nat cacheItem" where
  "fixed_item \<equiv> \<lparr>Content = 8, ExpiresAt = 60, KeepRefreshing = False, RefreshBy = 0\<rparr>"

abbreviation example_cache :: "nat TimedCache" where
  "example_cache \<equiv>
     \<lparr>items = Map [''session'' \<mapsto> session_item, ''other'' \<mapsto> fixed_item], interval = Minute\<rparr>"

section \<open>Properties\<close>

subsection \<open>Go maps\<close>

lemma lookup_assign:
  "assign m key v = Inr m' \<Longrightarrow> lookup m' k = (if k = key then Some v else lookup m k)"
  by (cases m) auto

lemma lookup_delete: "lookup (delete m key) k = (if k = key then None else lookup m k)"
  by (cases m) simp_all

lemma delete_absent: "lookup m key = None \<Longrightarrow> delete m key = m"
  by (cases m) auto

lemma delete_twice: "delete (delete m key) key = delete m key"
  by (cases m) simp_all

lemma delete_NilMap_iff: "(delete m key = NilMap) = (m = NilMap)"
  by (cases m) simp_all

lemma keys_lookup: "(key \<in> keys m) = (lookup m key \<noteq> None)"
  by (cases m) auto

lemma allocated_Map: "allocated tc = (\<exists>f. items tc = Map f)"
  by (cases "items tc") (simp_all add: allocated_def)

lemma New_allocated: "allocated (NewWithCustomInterval i)" "allocated New"
  by (simp_all add: allocated_def NewWithCustomInterval_def New_def)

lemma New_default: "New = NewWithCustomInterval Minute"
  by (simp add: New_def NewWithCustomInterval_def)

subsection \<open>The three ways through Get, and KeyExists\<close>

lemma Get_absent:
  assumes "lookup (items tc) key = None"
  shows "Get now key tc = Inr (Inl ItemNotFound, tc)"
  using assms by (simp add: Get_def)

lemma Get_not_refreshing:
  assumes "lookup (items tc) key = Some theItem" and "\<not> KeepRefreshing theItem"
  shows "Get now key tc = Inr (Inr (Content theItem), tc)"
  using assms by (simp add: Get_def)

lemma refreshing_Get_eq:
  assumes "items tc = Map f" and "f key = Some theItem" and "KeepRefreshing theItem"
  shows "Get now key tc = Inr (Inr (Content theItem),
           tc\<lparr>items := Map (f(key \<mapsto> theItem\<lparr>ExpiresAt := Add now (RefreshBy theItem)\<rparr>))\<rparr>)"
  using assms by (simp add: Get_def)

lemma KeyExists_eq: "KeyExists key tc = Inr (lookup (items tc) key \<noteq> None, tc)"
  by (cases "lookup (items tc) key") (simp_all add: KeyExists_def)

subsection \<open>Get on a refreshing entry\<close>

text \<open>
  C1. When \<open>key\<close> holds an entry with \<^verbatim>\<open>KeepRefreshing\<close> set, \<^verbatim>\<open>Get\<close> returns the stored
  content and no error, and the cache it leaves has, at \<open>key\<close>, the same entry with
  \<^verbatim>\<open>ExpiresAt\<close> set to the clock reading plus \<^verbatim>\<open>RefreshBy\<close>; the entry's other fields,
  the entries of all other keys, the set of keys and the interval are as before.
\<close>

theorem Get_refreshing:
  assumes "lookup (items tc) key = Some theItem" and "KeepRefreshing theItem"
  shows "\<exists>tc'. Get now key tc = Inr (Inr (Content theItem), tc')
           \<and> lookup (items tc') key = Some (theItem\<lparr>ExpiresAt := Add now (RefreshBy theItem)\<rparr>)
           \<and> (\<forall>k. k \<noteq> key \<longrightarrow> lookup (items tc') k = lookup (items tc) k)
           \<and> keys (items tc') = keys (items tc)
           \<and> interval tc' = interval tc"
proof (cases "items tc")
  case NilMap
  with assms(1) show ?thesis by simp
next
  case (Map f)
  with assms(1) have fk: "f key = Some theItem" by simp
  let ?it = "theItem\<lparr>ExpiresAt := Add now (RefreshBy theItem)\<rparr>"
  let ?tc = "tc\<lparr>items := Map (f(key \<mapsto> ?it))\<rparr>"
  have g: "Get now key tc = Inr (Inr (Content theItem), ?tc)"
    using Map fk assms(2) by (rule refreshing_Get_eq)
  have "lookup (items ?tc) key = Some ?it" by simp
  moreover have "\<forall>k. k \<noteq> key \<longrightarrow> lookup (items ?tc) k = lookup (items tc) k"
    by (simp add: Map)
  moreover have "keys (items ?tc) = keys (items tc)"
    using fk by (auto simp: Map)
  moreover have "interval ?tc = interval tc" by simp
  ultimately show ?thesis using g by (intro exI[of _ ?tc] conjI)
qed

theorem Get_refreshing_witness:
  "lookup (items example_cache) ''session'' = Some session_item
   \<and> KeepRefreshing session_item
   \<and> (\<exists>tc'. Get 120 ''session'' example_cache = Inr (Inr 7, tc')
          \<and> lookup (items tc') ''session''
               = Some \<lparr>Content = 7, ExpiresAt = 170, KeepRefreshing = True, RefreshBy = 50\<rparr>
          \<and> lookup (items tc') ''other'' = Some fixed_item)"
proof -
  have h1: "lookup (items example_cache) ''session'' = Some session_item" by simp
  have h2: "KeepRefreshing session_item" by simp
  from Get_refreshing [OF h1 h2, of 120]
  obtain tc' where g: "Get 120 ''session'' example_cache = Inr (Inr (Content session_item), tc')"
    and l: "lookup (items tc') ''session''
              = Some (session_item\<lparr>ExpiresAt := Add 120 (RefreshBy session_item)\<rparr>)"
    and o: "\<forall>k. k \<noteq> ''session'' \<longrightarrow> lookup (items tc') k = lookup (items example_cache) k"
    by auto
  from o have o': "lookup (items tc') ''other'' = lookup (items example_cache) ''other''"
    by simp
  have a: "Add 120 (50 :: Duration) = 170" by (simp add: Add_def)
  show ?thesis
    using h1 h2 g l o' a by (intro conjI exI[of _ tc']) simp_all
qed

subsection \<open>Put, then Get\<close>

text \<open>
  C2. On a cache with an allocated table (every cache of a constructor has one),
  \<^verbatim>\<open>Put\<close> of \<open>content\<close> at \<open>key\<close> with any duration returns, and a \<^verbatim>\<open>Get\<close> of \<open>key\<close> right
  after it, at any clock reading, returns \<open>content\<close> and no error.
\<close>

theorem Put_then_Get:
  assumes "allocated tc"
  shows "\<exists>tc'. Put now key content duration tc = Inr ((), tc')
           \<and> Get now' key tc' = Inr (Inr content, tc')"
proof -
  from assms obtain f where f: "items tc = Map f"
    by (auto simp: allocated_Map)
  let ?it = "\<lparr>Content = content, ExpiresAt = Add now duration, KeepRefreshing = False, RefreshBy = 0\<rparr>"
  let ?tc = "tc\<lparr>items := Map (f(key \<mapsto> ?it))\<rparr>"
  have p: "Put now key content duration tc = Inr ((), ?tc)"
    by (simp add: Put_def f)
  have g: "Get now' key ?tc = Inr (Inr content, ?tc)"
    by (simp add: Get_def)
  show ?thesis using p g by (intro exI[of _ ?tc] conjI)
qed

theorem Put_then_Get_witness:
  "allocated (New :: nat TimedCache)
   \<and> (\<exists>tc'. Put 10 ''k'' (3::nat) (- 1) New = Inr ((), tc') \<and> Get 20 ''k'' tc' = Inr (Inr 3, tc'))"
  using Put_then_Get [OF New_allocated(2), of 10 "''k''" "3::nat" "- 1" 20]
  by (simp add: New_allocated)

subsection \<open>RemoveExpired\<close>

text \<open>
  What the loop leaves at a key: a key the range visits keeps its entry unless the
  entry's deadline is before \<open>timeNow\<close>; a key it does not visit is untouched.
\<close>

lemma RemoveExpired_loop_lookup:
  "lookup (RemoveExpired_loop timeNow ks m) key =
     (if key \<in> set ks
      then (case lookup m key of
              None \<Rightarrow> None
            | Some curItem \<Rightarrow> if Before (ExpiresAt curItem) timeNow then None else Some curItem)
      else lookup m key)"
proof (induction ks arbitrary: m)
  case Nil
  show ?case by simp
next
  case (Cons k ks)
  show ?case
  proof (cases "lookup m k")
    case None
    then show ?thesis using Cons.IH [of m] by (auto split: option.splits)
  next
    case (Some curItem)
    show ?thesis
    proof (cases "Before (ExpiresAt curItem) timeNow")
      case True
      then show ?thesis using Some Cons.IH [of "delete m k"]
        by (auto simp: lookup_delete split: option.splits)
    next
      case False
      then show ?thesis using Some Cons.IH [of m] by (auto split: option.splits)
    qed
  qed
qed

lemma RemoveExpired_loop_NilMap_iff: "(RemoveExpired_loop timeNow ks m = NilMap) = (m = NilMap)"
proof (induction ks arbitrary: m)
  case Nil
  show ?case by simp
next
  case (Cons k ks)
  show ?case
    using Cons.IH [of m] Cons.IH [of "delete m k"] delete_NilMap_iff [of m k]
    by (simp split: option.splits)
qed

text \<open>
  C3. \<^verbatim>\<open>RemoveExpired\<close> reads the clock once (\<open>now\<close>) and, whatever the order of the
  range, leaves exactly the entries whose \<^verbatim>\<open>ExpiresAt\<close> is not before that reading, each
  one unchanged; every entry whose \<^verbatim>\<open>ExpiresAt\<close> is strictly before it is gone.
\<close>

theorem RemoveExpired_exact:
  assumes "range_order ks (items tc)"
  shows "\<exists>tc'. RemoveExpired now ks tc = Inr ((), tc')
           \<and> interval tc' = interval tc
           \<and> (\<forall>key. lookup (items tc') key =
                 (case lookup (items tc) key of
                    None \<Rightarrow> None
                  | Some curItem \<Rightarrow>
                      if Before (ExpiresAt curItem) now then None else Some curItem))"
proof -
  let ?tc = "tc\<lparr>items := RemoveExpired_loop now ks (items tc)\<rparr>"
  have r: "RemoveExpired now ks tc = Inr ((), ?tc)"
    by (simp add: RemoveExpired_def)
  have k: "set ks = keys (items tc)"
    using assms by (simp add: range_order_def)
  have absent: "lookup (items tc) key = None" if "key \<notin> set ks" for key
    using that k by (cases "items tc") auto
  have "lookup (items ?tc) key =
          (case lookup (items tc) key of
             None \<Rightarrow> None
           | Some curItem \<Rightarrow> if Before (ExpiresAt curItem) now then None else Some curItem)" for key
    using absent [of key] by (simp add: RemoveExpired_loop_lookup)
  then show ?thesis using r by (intro exI[of _ ?tc]) simp
qed

theorem RemoveExpired_exact_witness:
  "range_order [''b'', ''a'', ''c'']
     (Map [''a'' \<mapsto> \<lparr>Content = (1::nat), ExpiresAt = 99, KeepRefreshing = False, RefreshBy = 0\<rparr>,
           ''b'' \<mapsto> \<lparr>Content = 2, ExpiresAt = 100, KeepRefreshing = True, RefreshBy = 5\<rparr>,
           ''c'' \<mapsto> \<lparr>Content = 3, ExpiresAt = 101, KeepRefreshing = False, RefreshBy = 0\<rparr>])
   \<and> (\<exists>tc'. RemoveExpired 100 [''b'', ''a'', ''c'']
          \<lparr>items = Map [''a'' \<mapsto> \<lparr>Content = (1::nat), ExpiresAt = 99, KeepRefreshing = False, RefreshBy = 0\<rparr>,
           ''b'' \<mapsto> \<lparr>Content = 2, ExpiresAt = 100, KeepRefreshing = True, RefreshBy = 5\<rparr>,
           ''c'' \<mapsto> \<lparr>Content = 3, ExpiresAt = 101, KeepRefreshing = False, RefreshBy = 0\<rparr>],
            interval = Minute\<rparr> = Inr ((), tc')
        \<and> lookup (items tc') ''a'' = None
        \<and> lookup (items tc') ''b'' = Some \<lparr>Content = 2, ExpiresAt = 100, KeepRefreshing = True, RefreshBy = 5\<rparr>
        \<and> lookup (items tc') ''c'' = Some \<lparr>Content = 3, ExpiresAt = 101, KeepRefreshing = False, RefreshBy = 0\<rparr>)"
proof -
  let ?m = "Map [''a'' \<mapsto> \<lparr>Content = (1::nat), ExpiresAt = 99, KeepRefreshing = False, RefreshBy = 0\<rparr>,
           ''b'' \<mapsto> \<lparr>Content = 2, ExpiresAt = 100, KeepRefreshing = True, RefreshBy = 5\<rparr>,
           ''c'' \<mapsto> \<lparr>Content = 3, ExpiresAt = 101, KeepRefreshing = False, RefreshBy = 0\<rparr>]"
  let ?tc = "\<lparr>items = ?m, interval = Minute\<rparr>"
  have h: "range_order [''b'', ''a'', ''c''] (items ?tc)"
    by (auto simp: range_order_def)
  from RemoveExpired_exact [OF h, of 100]
  obtain tc' where r: "RemoveExpired 100 [''b'', ''a'', ''c''] ?tc = Inr ((), tc')"
    and l: "\<And>key. lookup (items tc') key =
                 (case lookup (items ?tc) key of
                    None \<Rightarrow> None
                  | Some curItem \<Rightarrow>
                      if Before (ExpiresAt curItem) 100 then None else Some curItem)"
    by auto
  have "lookup (items tc') ''a'' = None"
    by (simp add: l [of "''a''"] Before_def)
  moreover have "lookup (items tc') ''b'' = Some \<lparr>Content = 2, ExpiresAt = 100, KeepRefreshing = True, RefreshBy = 5\<rparr>"
    by (simp add: l [of "''b''"] Before_def)
  moreover have "lookup (items tc') ''c'' = Some \<lparr>Content = 3, ExpiresAt = 101, KeepRefreshing = False, RefreshBy = 0\<rparr>"
    by (simp add: l [of "''c''"] Before_def)
  ultimately show ?thesis
    using h r by (intro conjI exI[of _ tc']) simp_all
qed

subsection \<open>Get and KeyExists do not look at ExpiresAt\<close>

text \<open>
  C5 as it is stated fails on a refreshing entry inserted with a negative duration.
  \<^verbatim>\<open>PutRefreshing\<close> at clock reading 6 with duration \<open>-1\<close> gives the deadline 5; a
  \<^verbatim>\<open>Get\<close> at clock reading 10 finds the entry, whose deadline has passed, returns its
  content and sets the deadline to 9, which is before the reading 10 of that very
  \<^verbatim>\<open>Get\<close>: the refresh has not moved the deadline into the future.
\<close>

theorem refresh_into_the_past:
  "PutRefreshing 6 ''k'' (0::nat) (- 1) New
     = Inr ((), \<lparr>items = Map [''k'' \<mapsto> \<lparr>Content = 0, ExpiresAt = 5, KeepRefreshing = True, RefreshBy = - 1\<rparr>],
                 interval = Minute\<rparr>)
   \<and> Get 10 ''k'' \<lparr>items = Map [''k'' \<mapsto> \<lparr>Content = (0::nat), ExpiresAt = 5, KeepRefreshing = True, RefreshBy = - 1\<rparr>],
                 interval = Minute\<rparr>
     = Inr (Inr 0, \<lparr>items = Map [''k'' \<mapsto> \<lparr>Content = 0, ExpiresAt = 9, KeepRefreshing = True, RefreshBy = - 1\<rparr>],
                 interval = Minute\<rparr>)
   \<and> Before 9 10"
  by (simp add: PutRefreshing_def Get_def New_def Add_def Before_def)

text \<open>
  C5, amended. For every key present in the table, whatever its \<^verbatim>\<open>ExpiresAt\<close> (no
  hypothesis relates it to the clock), \<^verbatim>\<open>Get\<close> returns its content and no error and
  \<^verbatim>\<open>KeyExists\<close> returns true and leaves the cache as it is. For a refreshing entry the
  \<^verbatim>\<open>Get\<close> sets \<^verbatim>\<open>ExpiresAt\<close> to the clock reading plus \<^verbatim>\<open>RefreshBy\<close>, which is after the
  clock reading exactly when \<^verbatim>\<open>RefreshBy\<close> is positive.
\<close>

theorem Get_ignores_ExpiresAt:
  assumes "lookup (items tc) key = Some theItem"
  shows "(\<exists>tc'. Get now key tc = Inr (Inr (Content theItem), tc')
            \<and> (KeepRefreshing theItem \<longrightarrow>
                 (\<exists>theItem'. lookup (items tc') key = Some theItem'
                    \<and> ExpiresAt theItem' = Add now (RefreshBy theItem)
                    \<and> Before now (ExpiresAt theItem') = (0 < sint (RefreshBy theItem)))))
       \<and> KeyExists key tc = Inr (True, tc)"
proof
  show "KeyExists key tc = Inr (True, tc)"
    using assms by (simp add: KeyExists_eq)
  show "\<exists>tc'. Get now key tc = Inr (Inr (Content theItem), tc')
            \<and> (KeepRefreshing theItem \<longrightarrow>
                 (\<exists>theItem'. lookup (items tc') key = Some theItem'
                    \<and> ExpiresAt theItem' = Add now (RefreshBy theItem)
                    \<and> Before now (ExpiresAt theItem') = (0 < sint (RefreshBy theItem))))"
  proof (cases "KeepRefreshing theItem")
    case False
    then show ?thesis using assms by (simp add: Get_not_refreshing)
  next
    case True
    from assms obtain f where f: "items tc = Map f" "f key = Some theItem"
      by (cases "items tc") simp_all
    have "Get now key tc = Inr (Inr (Content theItem),
            tc\<lparr>items := Map (f(key \<mapsto> theItem\<lparr>ExpiresAt := Add now (RefreshBy theItem)\<rparr>))\<rparr>)"
      using f True by (rule refreshing_Get_eq)
    then show ?thesis
      by (simp add: Add_def Before_def)
  qed
qed

text \<open>The entry of \<open>''session''\<close> expired at 100; at 120 it is still found, and refreshed to 170.\<close>

theorem Get_ignores_ExpiresAt_witness:
  "lookup (items example_cache) ''session'' = Some session_item
   \<and> Before (ExpiresAt session_item) 120
   \<and> KeepRefreshing session_item
   \<and> (\<exists>tc'. Get 120 ''session'' example_cache = Inr (Inr 7, tc')
          \<and> (\<exists>theItem'. lookup (items tc') ''session'' = Some theItem'
                \<and> ExpiresAt theItem' = 170 \<and> Before 120 (ExpiresAt theItem')))
   \<and> KeyExists ''session'' example_cache = Inr (True, example_cache)"
proof -
  have h: "lookup (items example_cache) ''session'' = Some session_item" by simp
  have a: "Add 120 (50 :: Duration) = 170" by (simp add: Add_def)
  from Get_ignores_ExpiresAt [OF h, of 120]
  have "(\<exists>tc'. Get 120 ''session'' example_cache = Inr (Inr 7, tc')
          \<and> (\<exists>theItem'. lookup (items tc') ''session'' = Some theItem'
                \<and> ExpiresAt theItem' = 170 \<and> Before 120 (ExpiresAt theItem')))
        \<and> KeyExists ''session'' example_cache = Inr (True, example_cache)"
    by (simp add: a)
  then show ?thesis by (simp add: Before_def)
qed

subsection \<open>What calls other than the puts leave of an entry\<close>

lemma entry_kept_refl: "entry_kept e e"
  by (simp add: entry_kept_def split: option.splits)

lemma entry_kept_trans: "entry_kept a b \<Longrightarrow> entry_kept b c \<Longrightarrow> entry_kept a c"
  by (auto simp: entry_kept_def split: option.splits)

lemma entry_kept_None: "entry_kept e None"
  by (simp add: entry_kept_def)

text \<open>\<^verbatim>\<open>Get\<close> never panics: it assigns only to a key it has just found.\<close>

lemma Get_returns:
  "\<exists>r tc'. Get now key tc = Inr (r, tc')
      \<and> (r = Inl ItemNotFound) = (lookup (items tc) key = None)
      \<and> allocated tc' = allocated tc
      \<and> (\<forall>k. entry_kept (lookup (items tc) k) (lookup (items tc') k))"
proof (cases "lookup (items tc) key")
  case None
  then show ?thesis
    by (simp add: Get_absent entry_kept_refl)
next
  case (Some theItem)
  show ?thesis
  proof (cases "KeepRefreshing theItem")
    case False
    then show ?thesis using Some
      by (simp add: Get_not_refreshing entry_kept_refl)
  next
    case True
    from Some obtain f where f: "items tc = Map f" "f key = Some theItem"
      by (cases "items tc") simp_all
    let ?tc = "tc\<lparr>items := Map (f(key \<mapsto> theItem\<lparr>ExpiresAt := Add now (RefreshBy theItem)\<rparr>))\<rparr>"
    have g: "Get now key tc = Inr (Inr (Content theItem), ?tc)"
      using f True by (rule refreshing_Get_eq)
    have a: "allocated ?tc = allocated tc"
      by (simp add: allocated_def f)
    have e: "entry_kept (lookup (items tc) k) (lookup (items ?tc) k)" for k
      by (cases "k = key") (simp_all add: f entry_kept_def split: option.splits)
    show ?thesis
      using g a e Some by simp
  qed
qed

lemma exec_inserts_nothing:
  assumes "inserts_nothing c"
  shows "\<exists>r tc'. exec c tc = Inr (r, tc')
           \<and> (\<forall>k. entry_kept (lookup (items tc) k) (lookup (items tc') k))"
proof (cases c)
  case (CallDelete key)
  have "entry_kept (lookup (items tc) k) (lookup (delete (items tc) key) k)" for k
    by (simp add: lookup_delete entry_kept_refl entry_kept_None)
  then show ?thesis
    by (simp add: CallDelete Delete_def replying_def)
next
  case (CallGet now key)
  from Get_returns [of now key tc]
  obtain r tc' where "Get now key tc = Inr (r, tc')"
    and "\<forall>k. entry_kept (lookup (items tc) k) (lookup (items tc') k)"
    by auto
  then show ?thesis
    by (simp add: CallGet replying_def)
next
  case (CallKeyExists key)
  then show ?thesis
    by (simp add: KeyExists_eq replying_def entry_kept_refl)
next
  case (CallRemoveExpired now ks)
  have "entry_kept (lookup (items tc) k) (lookup (RemoveExpired_loop now ks (items tc)) k)" for k
    by (simp add: RemoveExpired_loop_lookup entry_kept_refl entry_kept_None split: option.splits)
  then show ?thesis
    by (simp add: CallRemoveExpired RemoveExpired_def replying_def)
qed (use assms in simp_all)

lemma run_inserts_nothing:
  assumes "list_all inserts_nothing calls"
  shows "\<exists>rs tc'. run calls tc = Inr (rs, tc')
           \<and> (\<forall>k. entry_kept (lookup (items tc) k) (lookup (items tc') k))"
  using assms
proof (induction calls arbitrary: tc)
  case Nil
  show ?case by (simp add: entry_kept_refl)
next
  case (Cons c calls)
  from Cons.prems have c: "inserts_nothing c" and cs: "list_all inserts_nothing calls"
    by simp_all
  from exec_inserts_nothing [OF c, of tc]
  obtain r tc1 where e: "exec c tc = Inr (r, tc1)"
    and k1: "\<And>k. entry_kept (lookup (items tc) k) (lookup (items tc1) k)"
    by auto
  from Cons.IH [OF cs, of tc1]
  obtain rs tc2 where r: "run calls tc1 = Inr (rs, tc2)"
    and k2: "\<And>k. entry_kept (lookup (items tc1) k) (lookup (items tc2) k)"
    by auto
  have "run (c # calls) tc = Inr (r # rs, tc2)"
    by (simp add: e r)
  moreover have "entry_kept (lookup (items tc) k) (lookup (items tc2) k)" for k
    using k1 [of k] k2 [of k] by (rule entry_kept_trans)
  ultimately show ?case by simp
qed

text \<open>
  C6. After \<^verbatim>\<open>PutRefreshing\<close> of \<open>content\<close> at \<open>key\<close> with \<open>duration\<close>, any sequence of
  \<^verbatim>\<open>Get\<close>, \<^verbatim>\<open>KeyExists\<close>, \<^verbatim>\<open>Delete\<close> and \<^verbatim>\<open>RemoveExpired\<close> calls (on any keys, at any
  clock readings, in any range order) returns, and if \<open>key\<close> still holds an entry after
  it, that entry has \<^verbatim>\<open>RefreshBy\<close> equal to \<open>duration\<close>, the content \<open>content\<close> and
  \<^verbatim>\<open>KeepRefreshing\<close> set: only \<^verbatim>\<open>ExpiresAt\<close> can differ. (A \<^verbatim>\<open>Delete\<close> of \<open>key\<close> itself
  removes the entry, and then nothing is said.)
\<close>

theorem RefreshBy_never_changes:
  assumes "PutRefreshing now key content duration tc = Inr ((), tc1)"
      and "list_all inserts_nothing calls"
  shows "\<exists>rs tc2. run calls tc1 = Inr (rs, tc2)
           \<and> (\<forall>theItem. lookup (items tc2) key = Some theItem \<longrightarrow>
                 Content theItem = content \<and> KeepRefreshing theItem
                 \<and> RefreshBy theItem = duration)"
proof -
  let ?it = "\<lparr>Content = content, ExpiresAt = Add now duration, KeepRefreshing = True, RefreshBy = duration\<rparr>"
  have l: "lookup (items tc1) key = Some ?it"
  proof (cases "items tc")
    case NilMap
    with assms(1) show ?thesis by (simp add: PutRefreshing_def)
  next
    case (Map f)
    with assms(1) have "tc1 = tc\<lparr>items := Map (f(key \<mapsto> ?it))\<rparr>"
      by (simp add: PutRefreshing_def)
    then show ?thesis by simp
  qed
  from run_inserts_nothing [OF assms(2), of tc1]
  obtain rs tc2 where r: "run calls tc1 = Inr (rs, tc2)"
    and k: "entry_kept (lookup (items tc1) key) (lookup (items tc2) key)"
    by auto
  have "Content theItem = content \<and> KeepRefreshing theItem \<and> RefreshBy theItem = duration"
    if "lookup (items tc2) key = Some theItem" for theItem
    using k that by (simp add: l entry_kept_def)
  then show ?thesis using r by simp
qed


theorem RefreshBy_never_changes_witness:
  "PutRefreshing 0 ''s'' (7::nat) 50 New
     = Inr ((), \<lparr>items = Map [''s'' \<mapsto> \<lparr>Content = 7, ExpiresAt = 50, KeepRefreshing = True, RefreshBy = 50\<rparr>],
                 interval = Minute\<rparr>)
   \<and> list_all inserts_nothing
        [CallGet 10 ''s'', CallKeyExists ''s'', CallDelete ''x'', CallRemoveExpired 20 [''s'']]
   \<and> (\<exists>rs tc2.
         run [CallGet 10 ''s'', CallKeyExists ''s'', CallDelete ''x'', CallRemoveExpired 20 [''s'']]
           \<lparr>items = Map [''s'' \<mapsto> \<lparr>Content = (7::nat), ExpiresAt = 50, KeepRefreshing = True, RefreshBy = 50\<rparr>],
             interval = Minute\<rparr> = Inr (rs, tc2)
         \<and> (\<exists>theItem. lookup (items tc2) ''s'' = Some theItem \<and> ExpiresAt theItem = 60
               \<and> Content theItem = 7 \<and> KeepRefreshing theItem \<and> RefreshBy theItem = 50))"
proof -
  let ?calls = "[CallGet 10 ''s'', CallKeyExists ''s'', CallDelete ''x'', CallRemoveExpired 20 [''s'']]"
  let ?tc1 = "\<lparr>items = Map [''s'' \<mapsto> \<lparr>Content = (7::nat), ExpiresAt = 50, KeepRefreshing = True, RefreshBy = 50\<rparr>],
             interval = Minute\<rparr>"
  let ?tc2 = "\<lparr>items = Map [''s'' \<mapsto> \<lparr>Content = (7::nat), ExpiresAt = 60, KeepRefreshing = True, RefreshBy = 50\<rparr>],
             interval = Minute\<rparr>"
  have h1: "PutRefreshing 0 ''s'' (7::nat) 50 New = Inr ((), ?tc1)"
    by (simp add: PutRefreshing_def New_def Add_def)
  have h2: "list_all inserts_nothing ?calls" by simp
  have e: "run ?calls ?tc1
             = Inr ([GetReply (Inr 7), KeyExistsReply True, NoValue, NoValue], ?tc2)"
    by (simp add: Get_def KeyExists_def Delete_def RemoveExpired_def replying_def
        Add_def Before_def)
  from RefreshBy_never_changes [OF h1 h2]
  have "\<forall>theItem. lookup (items ?tc2) ''s'' = Some theItem \<longrightarrow>
          Content theItem = 7 \<and> KeepRefreshing theItem \<and> RefreshBy theItem = 50"
    by (simp add: e)
  then have "\<exists>theItem. lookup (items ?tc2) ''s'' = Some theItem \<and> ExpiresAt theItem = 60
               \<and> Content theItem = 7 \<and> KeepRefreshing theItem \<and> RefreshBy theItem = 50"
    by simp
  then show ?thesis using h1 h2 e by simp
qed

subsection \<open>Get on a fixed entry\<close>

text \<open>
  C7. When \<open>key\<close> holds an entry with \<^verbatim>\<open>KeepRefreshing\<close> unset, \<^verbatim>\<open>Get\<close> returns the stored
  content and no error and leaves the whole cache as it was; so does every \<^verbatim>\<open>Get\<close> of a
  series of them, however long and at whatever clock readings.
\<close>

theorem Get_fixed:
  assumes "lookup (items tc) key = Some theItem" and "\<not> KeepRefreshing theItem"
  shows "Get now key tc = Inr (Inr (Content theItem), tc)
       \<and> run (map (\<lambda>t. CallGet t key) nows) tc
           = Inr (map (\<lambda>t. GetReply (Inr (Content theItem))) nows, tc)"
proof
  show "Get now key tc = Inr (Inr (Content theItem), tc)"
    using assms by (rule Get_not_refreshing)
  show "run (map (\<lambda>t. CallGet t key) nows) tc
           = Inr (map (\<lambda>t. GetReply (Inr (Content theItem))) nows, tc)"
  proof (induction nows)
    case Nil
    show ?case by simp
  next
    case (Cons t nows)
    have "exec (CallGet t key) tc = Inr (GetReply (Inr (Content theItem)), tc)"
      by (simp add: Get_not_refreshing [OF assms] replying_def)
    then show ?case using Cons.IH by simp
  qed
qed

theorem Get_fixed_witness:
  "lookup (items example_cache) ''other'' = Some fixed_item
   \<and> \<not> KeepRefreshing fixed_item
   \<and> Get 70 ''other'' example_cache = Inr (Inr 8, example_cache)
   \<and> run [CallGet 10 ''other'', CallGet 70 ''other'', CallGet 200 ''other''] example_cache
       = Inr ([GetReply (Inr 8), GetReply (Inr 8), GetReply (Inr 8)], example_cache)"
proof -
  have h1: "lookup (items example_cache) ''other'' = Some fixed_item" by simp
  have h2: "\<not> KeepRefreshing fixed_item" by simp
  from Get_fixed [OF h1 h2, of 70 "[10, 70, 200]"]
  show ?thesis by simp
qed

subsection \<open>The nil-map panic\<close>

lemma Put_allocated:
  assumes "allocated tc"
  shows "\<exists>tc'. Put now key content duration tc = Inr ((), tc') \<and> allocated tc'"
proof -
  from assms obtain f where f: "items tc = Map f"
    by (auto simp: allocated_Map)
  show ?thesis by (simp add: Put_def f allocated_def)
qed

lemma PutRefreshing_allocated:
  assumes "allocated tc"
  shows "\<exists>tc'. PutRefreshing now key content duration tc = Inr ((), tc') \<and> allocated tc'"
proof -
  from assms obtain f where f: "items tc = Map f"
    by (auto simp: allocated_Map)
  show ?thesis by (simp add: PutRefreshing_def f allocated_def)
qed

lemma exec_allocated:
  assumes "allocated tc"
  shows "\<exists>r tc'. exec c tc = Inr (r, tc') \<and> allocated tc'"
proof (cases c)
  case (CallPut now key content duration)
  from Put_allocated [OF assms, of now key content duration]
  show ?thesis by (auto simp: CallPut replying_def)
next
  case (CallPutRefreshing now key content duration)
  from PutRefreshing_allocated [OF assms, of now key content duration]
  show ?thesis by (auto simp: CallPutRefreshing replying_def)
next
  case (CallDelete key)
  show ?thesis using assms
    by (simp add: CallDelete Delete_def replying_def allocated_def delete_NilMap_iff)
next
  case (CallGet now key)
  from Get_returns [of now key tc]
  obtain r tc' where "Get now key tc = Inr (r, tc')" and "allocated tc' = allocated tc"
    by auto
  then show ?thesis using assms
    by (simp add: CallGet replying_def)
next
  case (CallKeyExists key)
  show ?thesis using assms
    by (simp add: CallKeyExists KeyExists_eq replying_def)
next
  case (CallRemoveExpired now ks)
  show ?thesis using assms
    by (simp add: CallRemoveExpired RemoveExpired_def replying_def allocated_def
        RemoveExpired_loop_NilMap_iff)
qed

text \<open>
  Calls made one after another on a cache with an allocated table do not meet the
  nil-map panic, and the table stays allocated; the value a constructor returns has an
  allocated table.
\<close>

lemma run_allocated:
  assumes "allocated tc"
  shows "\<exists>rs tc'. run calls tc = Inr (rs, tc') \<and> allocated tc'"
  using assms
proof (induction calls arbitrary: tc)
  case Nil
  then show ?case by simp
next
  case (Cons c calls)
  from exec_allocated [OF Cons.prems, of c]
  obtain r tc1 where e: "exec c tc = Inr (r, tc1)" and a: "allocated tc1"
    by auto
  from Cons.IH [OF a]
  obtain rs tc2 where "run calls tc1 = Inr (rs, tc2)" and "allocated tc2"
    by auto
  then show ?case using e by simp
qed

text \<open>
  The zero value of the struct, which no constructor returns and no method produces, has
  a nil table; the puts panic on it and the other methods treat it as empty.
\<close>

lemma Put_zero_value_panics:
  "Put now key content duration \<lparr>items = NilMap, interval = 0\<rparr> = Inl AssignmentToEntryInNilMap"
  by (simp add: Put_def)

subsection \<open>Delete\<close>

text \<open>
  C9. \<^verbatim>\<open>Delete\<close> returns on every cache and key, and it has no error result. After it
  \<open>key\<close> holds nothing and every other key holds what it held; when \<open>key\<close> held nothing
  before, the cache is unchanged. A second \<^verbatim>\<open>Delete\<close> of \<open>key\<close> right after the first
  leaves the cache that the first one left.
\<close>

theorem Delete_idempotent:
  "\<exists>tc'. Delete key tc = Inr ((), tc')
     \<and> lookup (items tc') key = None
     \<and> (\<forall>k. k \<noteq> key \<longrightarrow> lookup (items tc') k = lookup (items tc) k)
     \<and> interval tc' = interval tc
     \<and> (lookup (items tc) key = None \<longrightarrow> tc' = tc)
     \<and> Delete key tc' = Inr ((), tc')"
proof -
  let ?tc = "tc\<lparr>items := delete (items tc) key\<rparr>"
  have d: "Delete key tc = Inr ((), ?tc)" by (simp add: Delete_def)
  have "lookup (items ?tc) key = None" by (simp add: lookup_delete)
  moreover have "\<forall>k. k \<noteq> key \<longrightarrow> lookup (items ?tc) k = lookup (items tc) k"
    by (simp add: lookup_delete)
  moreover have "interval ?tc = interval tc" by simp
  moreover have "lookup (items tc) key = None \<longrightarrow> ?tc = tc"
    by (simp add: delete_absent)
  moreover have "Delete key ?tc = Inr ((), ?tc)"
    by (simp add: Delete_def delete_twice)
  ultimately show ?thesis using d by (intro exI[of _ ?tc] conjI)
qed

theorem Delete_idempotent_witness:
  "lookup (items example_cache) ''missing'' = None
   \<and> Delete ''missing'' example_cache = Inr ((), example_cache)
   \<and> (\<exists>tc'. Delete ''other'' example_cache = Inr ((), tc')
         \<and> lookup (items tc') ''other'' = None
         \<and> lookup (items tc') ''session'' = Some session_item
         \<and> Delete ''other'' tc' = Inr ((), tc'))"
proof -
  have h: "lookup (items example_cache) ''missing'' = None" by simp
  from Delete_idempotent [of "''missing''" example_cache]
  obtain tc0 where d0: "Delete ''missing'' example_cache = Inr ((), tc0)"
    and same: "lookup (items example_cache) ''missing'' = None \<longrightarrow> tc0 = example_cache"
    by auto
  from same h have "tc0 = example_cache" by (rule mp)
  with d0 have m: "Delete ''missing'' example_cache = Inr ((), example_cache)" by simp
  from Delete_idempotent [of "''other''" example_cache]
  obtain tc' where d: "Delete ''other'' example_cache = Inr ((), tc')"
    and gone: "lookup (items tc') ''other'' = None"
    and others: "\<forall>k. k \<noteq> ''other'' \<longrightarrow> lookup (items tc') k = lookup (items example_cache) k"
    and again: "Delete ''other'' tc' = Inr ((), tc')"
    by auto
  from others have "lookup (items tc') ''session'' = lookup (items example_cache) ''session''"
    by simp
  then have s: "lookup (items tc') ''session'' = Some session_item" by simp
  from h m d gone s again show ?thesis
    by (intro conjI exI[of _ tc'])
qed

subsection \<open>KeyExists\<close>

text \<open>
  C10. \<^verbatim>\<open>KeyExists\<close> returns whether \<open>key\<close> is in the table and leaves the cache exactly as
  it was, for every cache and key, a refreshing entry included: unlike \<^verbatim>\<open>Get\<close>, it moves
  no deadline.
\<close>

theorem KeyExists_leaves_cache:
  "KeyExists key tc = Inr (key \<in> keys (items tc), tc)"
  by (simp add: KeyExists_eq keys_lookup)

text \<open>On the refreshing entry of the example, where \<^verbatim>\<open>Get\<close> at 120 moves the deadline to 170.\<close>

theorem KeyExists_leaves_cache_witness:
  "KeepRefreshing session_item
   \<and> KeyExists ''session'' example_cache = Inr (True, example_cache)"
  using KeyExists_leaves_cache [of "''session''" example_cache] by simp

subsection \<open>Which mutex the sweep takes\<close>

text \<open>Two calls on one receiver exclude each other: the second waits while the first holds the mutex.\<close>

lemma Lock_excludes: "Lock tc s = Some s' \<Longrightarrow> Lock tc s' = None"
  by (auto simp: Lock_def split: option.splits if_splits)

text \<open>After the unlock that ends a method, the next call on the same receiver can lock again.\<close>

lemma Lock_Unlock:
  assumes "Lock tc s = Some s'"
  shows "\<exists>s''. Unlock tc s' = Some s'' \<and> Lock tc s'' \<noteq> None"
proof -
  from assms obtain v where v: "vars s tc = Some v" "\<not> mu v"
    and s': "s' = s\<lparr>vars := (vars s)(tc \<mapsto> v\<lparr>mu := True\<rparr>)\<rparr>"
    by (auto simp: Lock_def split: option.splits if_splits)
  show ?thesis
    by (simp add: s' Unlock_def Lock_def)
qed

text \<open>Taking the mutex of one variable leaves the mutex of every other variable as it was.\<close>

lemma Lock_other:
  assumes "tc \<noteq> tc'" and "Lock tc s = Some s'"
  shows "(Lock tc' s' = None) = (Lock tc' s = None)"
  using assms by (auto simp: Lock_def split: option.splits if_splits)

lemma New_in_memory_default: "New_in_memory s = NewWithCustomInterval_in_memory Minute s"
  by (simp add: New_in_memory_def NewWithCustomInterval_in_memory_def)

text \<open>
  In any memory, after a constructor call whose result the caller keeps in a variable:
  the goroutine's receiver \<open>g\<close> and the caller's variable \<open>c\<close> are two variables, they
  refer to one table, and after the sweep has taken the mutex of \<open>g\<close> a method of the
  caller takes the mutex of \<open>c\<close> without waiting.
\<close>

lemma constructor_result_is_a_copy:
  assumes "NewWithCustomInterval_in_memory i s = (v, s1)" and "keep_in_variable v s1 = (c, s2)"
  shows "\<exists>g. sweepers s2 = g # sweepers s \<and> g \<noteq> c
           \<and> table_of g s2 = table_of c s2 \<and> table_of c s2 \<noteq> None
           \<and> Option.bind (Lock g s2) (Lock c) \<noteq> None"
proof -
  let ?v = "\<lparr>items_ref = Some (next_free s), interval_var = i, mu = False\<rparr>"
  let ?s1 = "s\<lparr>vars := (vars s)(next_free s + 1 \<mapsto> ?v),
              tables := (tables s)(next_free s \<mapsto> Map.empty),
              sweepers := (next_free s + 1) # sweepers s,
              next_free := next_free s + 2\<rparr>"
  from assms(1) have v: "v = ?v" and s1: "s1 = ?s1"
    by (auto simp: NewWithCustomInterval_in_memory_def Let_def)
  from assms(2) have c: "c = next_free s + 2"
    and s2: "s2 = ?s1\<lparr>vars := (vars ?s1)(next_free s + 2 \<mapsto> ?v), next_free := next_free s + 3\<rparr>"
    by (auto simp: keep_in_variable_def v s1)
  have "sweepers s2 = (next_free s + 1) # sweepers s" by (simp add: s2)
  moreover have "next_free s + 1 \<noteq> c" by (simp add: c)
  moreover have "table_of (next_free s + 1) s2 = table_of c s2"
    by (simp add: s2 c table_of_def)
  moreover have "table_of c s2 \<noteq> None"
    by (simp add: s2 c table_of_def)
  moreover have "Option.bind (Lock (next_free s + 1) s2) (Lock c) \<noteq> None"
    by (simp add: s2 c Lock_def)
  ultimately show ?thesis by (intro exI[of _ "next_free s + 1"] conjI)
qed

text \<open>
  C4, on the program \<^verbatim>\<open>sessionStore = timedcache.New()\<close> started in an empty memory. The
  table is at address 0, \<^verbatim>\<open>newCache\<close> at 1 and \<^verbatim>\<open>sessionStore\<close> at 2. The one sweeping
  goroutine has receiver 1, the caller's methods have receiver 2, and both variables
  refer to table 0. When \<^verbatim>\<open>RemoveExpired\<close> of the goroutine has taken its mutex (that of
  1), a \<^verbatim>\<open>Put\<close>, \<^verbatim>\<open>Get\<close>, \<^verbatim>\<open>Delete\<close> or \<^verbatim>\<open>KeyExists\<close> of the caller takes its own (that
  of 2) without waiting, and both are at work on table 0 at once; two methods of the
  caller, in contrast, do exclude each other.
\<close>

theorem sweep_takes_another_mutex:
  "fst after_New = 2 \<and> sweepers (snd after_New) = [1]
   \<and> table_of 1 (snd after_New) = Some 0 \<and> table_of 2 (snd after_New) = Some 0
   \<and> Option.bind (Lock 1 (snd after_New)) (Lock 2) \<noteq> None
   \<and> Option.bind (Lock 2 (snd after_New)) (Lock 2) = None"
  by (simp add: after_New_def New_in_memory_def empty_memory_def keep_in_variable_def
      Lock_def table_of_def Let_def numeral_2_eq_2)

subsection \<open>A call of the caller while the sweep is at work\<close>


end
